theory Spec2Isabelle
  imports Complex_Main "HOL-Library.Sublist" "HOL-Library.AList"
begin

section \<open>Python values used by both modules\<close>

text \<open>
  A raised object is either an instance of \<open>Exception\<close> (what \<open>except Exception\<close>
  catches) or an instance of \<open>BaseException\<close> outside \<open>Exception\<close>
  (\<open>KeyboardInterrupt\<close>, \<open>SystemExit\<close>), which that handler lets through. The string
  is the class name.
\<close>

datatype raised = Exception string | BaseException string

text \<open>
  A Python float that a softmax can produce: a finite number or NaN. Every comparison
  with NaN is false. The literal \<open>0.99\<close> denotes the double nearest to 99/100; no
  double lies strictly between the two, so \<open>x > 0.99\<close> on doubles is the comparison
  with the real number 99/100.
\<close>

datatype pyfloat = Float real | NaN

fun py_gt :: "pyfloat \<Rightarrow> real \<Rightarrow> bool" where
  "py_gt (Float x) y = (x > y)"
| "py_gt NaN y = False"

section \<open>security_scanner.py\<close>

subsection \<open>Layer 1: the pattern list and case-insensitive search\<close>

definition injection_patterns :: "string list" where
  "injection_patterns =
     [''ignore previous instructions'',
      ''ignore all previous instructions'',
      ''system override'',
      ''you are now'',
      ''jailbreak'',
      ''developer mode'',
      ''do anything now'',
      ''always answer'',
      ''unfiltered'',
      ''dan mode'']"

text \<open>
  Each pattern is compiled with \<open>re.IGNORECASE\<close>. All ten consist of lower-case ASCII
  letters and spaces only, so as regular expressions they are literals, and
  \<open>pattern.search(text)\<close> is a case-insensitive substring test. Texts are lists of
  8-bit characters; on these, ignoring case for an ASCII letter means identifying it
  with its ASCII upper-case form, which is what \<open>lower_ascii\<close> does.
\<close>

definition lower_ascii :: "char \<Rightarrow> char" where
  "lower_ascii c =
     (case map_of (zip ''ABCDEFGHIJKLMNOPQRSTUVWXYZ'' ''abcdefghijklmnopqrstuvwxyz'') c of
        None \<Rightarrow> c
      | Some l \<Rightarrow> l)"

fun match_here :: "string \<Rightarrow> string \<Rightarrow> bool" where
  "match_here [] t = True"
| "match_here (p # ps) [] = False"
| "match_here (p # ps) (c # cs) = (lower_ascii c = lower_ascii p \<and> match_here ps cs)"

fun search :: "string \<Rightarrow> string \<Rightarrow> bool" where
  "search p [] = match_here p []"
| "search p (c # cs) = (match_here p (c # cs) \<or> search p cs)"

definition compiled_patterns :: "string list" where
  "compiled_patterns = injection_patterns"

subsection \<open>Log records\<close>

text \<open>
  The scanner's only effect besides its return value is logging. One constructor per
  logging call of the source, carrying what the message interpolates.
\<close>

datatype log_record =
    Prompt_injection_detected string
  | ML_scan string pyfloat
  | Malicious_intent_detected
  | Error_during_ML_scan raised

subsection \<open>Layer 2: the classifier and its threshold\<close>

text \<open>
  The tokenizer, the model and the softmax are external. Together they are a parameter
  that maps the text to the negative-class probability or raises.
\<close>

type_synonym classifier = "string \<Rightarrow> raised + pyfloat"

definition check_ml :: "classifier \<Rightarrow> string \<Rightarrow> (raised + bool) \<times> log_record list" where
  "check_ml clf text =
     (case clf text of
        Inr negative_score \<Rightarrow>
          (if py_gt negative_score 0.99
           then (Inr False, [ML_scan (take 30 text) negative_score])
           else (Inr True, [ML_scan (take 30 text) negative_score]))
      | Inl (Exception e) \<Rightarrow> (Inr True, [Error_during_ML_scan (Exception e)])
      | Inl (BaseException e) \<Rightarrow> (Inl (BaseException e), []))"

subsection \<open>scan\<close>

fun first_match :: "string list \<Rightarrow> string \<Rightarrow> string option" where
  "first_match [] text = None"
| "first_match (pattern # patterns) text =
     (if search pattern text then Some pattern else first_match patterns text)"

definition scan :: "classifier \<Rightarrow> string \<Rightarrow> (raised + bool) \<times> log_record list" where
  "scan clf text =
     (case first_match compiled_patterns text of
        Some pattern \<Rightarrow> (Inr False, [Prompt_injection_detected pattern])
      | None \<Rightarrow>
          (case check_ml clf text of
             (Inl e, lg) \<Rightarrow> (Inl e, lg)
           | (Inr is_safe_ml, lg) \<Rightarrow>
               (if \<not> is_safe_ml then (Inr False, lg @ [Malicious_intent_detected])
                else (Inr True, lg))))"

text \<open>Classifiers for the concrete instances below.\<close>

definition constant_classifier :: "pyfloat \<Rightarrow> classifier" where
  "constant_classifier sc text = Inr sc"

definition failing_classifier :: "string \<Rightarrow> classifier" where
  "failing_classifier e text = Inl (Exception e)"

section \<open>pii_vault.py\<close>

subsection \<open>Strings, slices and the disk cache\<close>

text \<open>
  Python normalises a slice bound against the length \<open>n\<close>: a negative bound counts
  from the end, and every bound is clamped into \<open>0..n\<close>.
\<close>

definition slice_index :: "nat \<Rightarrow> int \<Rightarrow> nat" where
  "slice_index n i = (if i < 0 then nat (max 0 (i + int n)) else min (nat i) n)"

text \<open>\<open>xs[a:b]\<close>.\<close>

definition slice :: "'a list \<Rightarrow> int \<Rightarrow> int \<Rightarrow> 'a list" where
  "slice xs a b =
     (let i = slice_index (length xs) a; j = slice_index (length xs) b
      in drop i (take j xs))"

text \<open>\<open>xs[a:b] = ys\<close>; a stop before the start is moved up to the start.\<close>

definition slice_assign :: "'a list \<Rightarrow> int \<Rightarrow> int \<Rightarrow> 'a list \<Rightarrow> 'a list" where
  "slice_assign xs a b ys =
     (let i = slice_index (length xs) a; j = max i (slice_index (length xs) b)
      in take i xs @ ys @ drop j xs)"

text \<open>
  \<open>text.replace(old, new)\<close>: the occurrences of \<open>old\<close> are found from the left and
  do not overlap; an empty \<open>old\<close> matches before every character and at the end.
  \<open>old in text\<close> is \<^const>\<open>sublist\<close>.
\<close>

fun replace_nonempty :: "string \<Rightarrow> string \<Rightarrow> string \<Rightarrow> string" where
  "replace_nonempty old new [] = []"
| "replace_nonempty old new (c # cs) =
     (if prefix old (c # cs) then new @ replace_nonempty old new (drop (length old - 1) cs)
      else c # replace_nonempty old new cs)"

definition replace :: "string \<Rightarrow> string \<Rightarrow> string \<Rightarrow> string" where
  "replace text old new =
     (if old = [] then new @ concat (map (\<lambda>c. c # new) text)
      else replace_nonempty old new text)"

text \<open>
  The disk cache holds the two kinds of value the vault stores: an original value (a
  string) and a session's list of placeholders. Expiry and eviction are not modelled:
  an entry stays until it is overwritten.
\<close>

datatype cached = Str string | Lst "string list"

type_synonym storage = "string \<rightharpoonup> cached"

definition mapping_key :: "string \<Rightarrow> string \<Rightarrow> string" where
  "mapping_key session_id placeholder = ''session:'' @ session_id @ '':'' @ placeholder"

definition session_keys_key :: "string \<Rightarrow> string" where
  "session_keys_key session_id = ''session:'' @ session_id @ '':keys''"

subsection \<open>The external capabilities\<close>

text \<open>
  Faker and \<open>uuid.uuid4\<close> draw from random state \<open>'g\<close>; each provider returns its
  value and the next state.
\<close>

record 'g fake =
  name :: "'g \<Rightarrow> string \<times> 'g"
  email :: "'g \<Rightarrow> string \<times> 'g"
  phone_number :: "'g \<Rightarrow> string \<times> 'g"
  credit_card_number :: "'g \<Rightarrow> string \<times> 'g"
  uuid4 :: "'g \<Rightarrow> string \<times> 'g"

definition generate_fake_data :: "'g fake \<Rightarrow> string \<Rightarrow> 'g \<Rightarrow> string \<times> 'g" where
  "generate_fake_data fk entity_type g =
     (if entity_type = ''PERSON'' then name fk g
      else if entity_type = ''EMAIL_ADDRESS'' then email fk g
      else if entity_type = ''PHONE_NUMBER'' then phone_number fk g
      else if entity_type = ''CREDIT_CARD'' then credit_card_number fk g
      else (case uuid4 fk g of (u, g') \<Rightarrow> (''<'' @ entity_type @ ''_'' @ take 8 u @ ''>'', g')))"

text \<open>
  A result of the Presidio analyzer: \<open>entity_type\<close>, \<open>start\<close>, \<open>end\<close> (here
  \<open>end_offset\<close>). The analyzer itself, with its fixed entity list and language, is a
  parameter \<open>analyze\<close> from the text to the list of results.
\<close>

record recognizer_result =
  entity_type :: string
  start :: int
  end_offset :: int

subsection \<open>anonymize\<close>

text \<open>
  \<open>results.sort(key=lambda x: x.start, reverse=True)\<close>: descending by \<open>start\<close>,
  stable (results with the same start keep their order).
\<close>

definition sort_results :: "recognizer_result list \<Rightarrow> recognizer_result list" where
  "sort_results results = rev (sort_key start (rev results))"

text \<open>
  The state of the \<open>for\<close> loop: \<open>anonymized_text_list\<close>, \<open>new_mappings\<close> (a dict, so
  an association list in insertion order), the cache and the random state.
\<close>

type_synonym 'g loop_state = "string \<times> (string \<times> string) list \<times> storage \<times> 'g"

fun anonymize_loop ::
  "'g fake \<Rightarrow> string \<Rightarrow> string \<Rightarrow> recognizer_result list \<Rightarrow> 'g loop_state \<Rightarrow> 'g loop_state"
where
  "anonymize_loop fk text session_id [] st = st"
| "anonymize_loop fk text session_id (result # results)
     (anonymized_text_list, new_mappings, vault_storage, g) =
     (let original_value = slice text (start result) (end_offset result);
          (placeholder, g') = generate_fake_data fk (entity_type result) g;
          key = mapping_key session_id placeholder
      in anonymize_loop fk text session_id results
           (slice_assign anonymized_text_list (start result) (end_offset result) placeholder,
            AList.update placeholder original_value new_mappings,
            vault_storage(key \<mapsto> Str original_value),
            g'))"

definition anonymize ::
  "'g fake \<Rightarrow> (string \<Rightarrow> recognizer_result list) \<Rightarrow> string \<Rightarrow> string \<Rightarrow> storage \<times> 'g
   \<Rightarrow> raised + (string \<times> storage \<times> 'g)"
where
  "anonymize fk analyze text session_id st =
     (case anonymize_loop fk text session_id (sort_results (analyze text))
             (text, [], fst st, snd st) of
        (anonymized_text_list, new_mappings, vault_storage, g) \<Rightarrow>
          (case vault_storage (session_keys_key session_id) of
             None \<Rightarrow>
               Inr (anonymized_text_list,
                    vault_storage(session_keys_key session_id \<mapsto> Lst ([] @ map fst new_mappings)),
                    g)
           | Some (Lst current_keys) \<Rightarrow>
               Inr (anonymized_text_list,
                    vault_storage(session_keys_key session_id \<mapsto>
                      Lst (current_keys @ map fst new_mappings)),
                    g)
           | Some (Str s) \<Rightarrow> Inl (Exception ''AttributeError'')))"

subsection \<open>deanonymize\<close>

text \<open>
  \<open>if original_value:\<close> is false for \<open>None\<close>, for the empty string and for the empty
  list. A non-empty list passed to \<open>str.replace\<close> raises \<open>TypeError\<close>. Iterating a
  string (where the keys entry holds one) yields its characters as one-character
  strings.
\<close>

fun deanonymize_loop :: "storage \<Rightarrow> string \<Rightarrow> string list \<Rightarrow> string \<Rightarrow> raised + string" where
  "deanonymize_loop vault_storage session_id [] deanonymized_text = Inr deanonymized_text"
| "deanonymize_loop vault_storage session_id (placeholder # rest) deanonymized_text =
     (if sublist placeholder deanonymized_text then
        (case vault_storage (mapping_key session_id placeholder) of
           None \<Rightarrow> deanonymize_loop vault_storage session_id rest deanonymized_text
         | Some (Str original_value) \<Rightarrow>
             (if original_value \<noteq> [] then
                deanonymize_loop vault_storage session_id rest
                  (replace deanonymized_text placeholder original_value)
              else deanonymize_loop vault_storage session_id rest deanonymized_text)
         | Some (Lst original_value) \<Rightarrow>
             (if original_value \<noteq> [] then Inl (Exception ''TypeError'')
              else deanonymize_loop vault_storage session_id rest deanonymized_text))
      else deanonymize_loop vault_storage session_id rest deanonymized_text)"

definition deanonymize :: "string \<Rightarrow> string \<Rightarrow> storage \<Rightarrow> raised + string" where
  "deanonymize text session_id vault_storage =
     (let session_placeholders =
        (case vault_storage (session_keys_key session_id) of
           None \<Rightarrow> []
         | Some (Lst ks) \<Rightarrow> ks
         | Some (Str s) \<Rightarrow> map (\<lambda>c. [c]) s)
      in deanonymize_loop vault_storage session_id session_placeholders text)"

section \<open>Notions used to state the properties\<close>

subsection \<open>What the loop of anonymize issues and writes\<close>

text \<open>
  The placeholders the loop generates, each paired with the result it replaces, in
  processing order: the random state is threaded from one call of the generator to the
  next, as in \<^const>\<open>anonymize_loop\<close>.
\<close>

fun issue :: "'g fake \<Rightarrow> recognizer_result list \<Rightarrow> 'g \<Rightarrow> (recognizer_result \<times> string) list" where
  "issue fk [] g = []"
| "issue fk (result # results) g =
     (case generate_fake_data fk (entity_type result) g of
        (placeholder, g') \<Rightarrow> (result, placeholder) # issue fk results g')"

text \<open>
  The writes of the loop alone: the mapping records stored, and the entries put into
  \<open>new_mappings\<close>.
\<close>

fun record_all :: "string \<Rightarrow> string \<Rightarrow> (recognizer_result \<times> string) list \<Rightarrow> storage \<Rightarrow> storage" where
  "record_all text session_id [] vault_storage = vault_storage"
| "record_all text session_id ((result, placeholder) # rest) vault_storage =
     record_all text session_id rest
       (vault_storage(mapping_key session_id placeholder \<mapsto>
          Str (slice text (start result) (end_offset result))))"

fun note_all ::
  "string \<Rightarrow> (recognizer_result \<times> string) list \<Rightarrow> (string \<times> string) list \<Rightarrow> (string \<times> string) list"
where
  "note_all text [] new_mappings = new_mappings"
| "note_all text ((result, placeholder) # rest) new_mappings =
     note_all text rest
       (AList.update placeholder (slice text (start result) (end_offset result)) new_mappings)"

text \<open>The random state after the loop.\<close>

fun draw_all :: "'g fake \<Rightarrow> recognizer_result list \<Rightarrow> 'g \<Rightarrow> 'g" where
  "draw_all fk [] g = g"
| "draw_all fk (result # results) g =
     draw_all fk results (snd (generate_fake_data fk (entity_type result) g))"

text \<open>The cache after the loop has run over the results \<open>rs\<close>, before the key list is written.\<close>

definition storage_after ::
  "'g fake \<Rightarrow> string \<Rightarrow> string \<Rightarrow> recognizer_result list \<Rightarrow> storage \<Rightarrow> 'g \<Rightarrow> storage" where
  "storage_after fk text session_id rs vault_storage g =
     fst (snd (snd (anonymize_loop fk text session_id rs (text, [], vault_storage, g))))"

text \<open>What \<open>anonymize\<close> issues for a text: the loop runs over the sorted results.\<close>

definition issued ::
  "'g fake \<Rightarrow> (string \<Rightarrow> recognizer_result list) \<Rightarrow> string \<Rightarrow> 'g \<Rightarrow> (recognizer_result \<times> string) list"
where
  "issued fk analyze text g = issue fk (sort_results (analyze text)) g"

text \<open>The slice assignments of the loop alone, applied in the order given.\<close>

fun splice :: "string \<Rightarrow> (recognizer_result \<times> string) list \<Rightarrow> string" where
  "splice lst [] = lst"
| "splice lst ((result, placeholder) # rest) =
     splice (slice_assign lst (start result) (end_offset result) placeholder) rest"

text \<open>
  The intended outcome, read from the left: with the results in ascending order, copy
  the text up to the start of the next span, put the placeholder, continue after the
  end of the span, and copy what is left.
\<close>

fun render :: "string \<Rightarrow> nat \<Rightarrow> (recognizer_result \<times> string) list \<Rightarrow> string" where
  "render text pos [] = drop pos text"
| "render text pos ((result, placeholder) # rest) =
     drop pos (take (nat (start result)) text) @ placeholder
       @ render text (nat (end_offset result)) rest"

subsection \<open>Well-formed and non-overlapping results\<close>

definition well_formed :: "string \<Rightarrow> recognizer_result \<Rightarrow> bool" where
  "well_formed text r = (0 \<le> start r \<and> start r < end_offset r \<and> end_offset r \<le> int (length text))"

definition disjoint_spans :: "recognizer_result \<Rightarrow> recognizer_result \<Rightarrow> bool" where
  "disjoint_spans a b = (end_offset a \<le> start b \<or> end_offset b \<le> start a)"

fun non_overlapping :: "recognizer_result list \<Rightarrow> bool" where
  "non_overlapping [] = True"
| "non_overlapping (r # rs) = (list_all (disjoint_spans r) rs \<and> non_overlapping rs)"

subsection \<open>Occurrences of a placeholder\<close>

text \<open>The number of positions of the text at which \<open>p\<close> occurs.\<close>

fun occurrences :: "string \<Rightarrow> string \<Rightarrow> nat" where
  "occurrences p [] = (if p = [] then 1 else 0)"
| "occurrences p (c # cs) = (if prefix p (c # cs) then 1 else 0) + occurrences p cs"

text \<open>
  \<open>deanonymize\<close> restores the placeholders in the order in which they were issued.
  When the first placeholder of \<open>ds\<close> is restored, the later ones are still in the
  text: the text is the original with the spans of \<open>ds\<close> replaced. Each placeholder
  is required to occur exactly once in the text in which it is restored.
\<close>

fun restorable :: "string \<Rightarrow> (recognizer_result \<times> string) list \<Rightarrow> bool" where
  "restorable text [] = True"
| "restorable text ((result, placeholder) # rest) =
     (occurrences placeholder (splice text ((result, placeholder) # rest)) = 1
      \<and> restorable text rest)"

subsection \<open>The invariant of the cache\<close>

text \<open>
  Every placeholder in a session's placeholder list has an entry under its mapping key.
\<close>

definition backed :: "storage \<Rightarrow> bool" where
  "backed vault_storage =
     (\<forall>session_id ks. vault_storage (session_keys_key session_id) = Some (Lst ks) \<longrightarrow>
        (\<forall>placeholder \<in> set ks. vault_storage (mapping_key session_id placeholder) \<noteq> None))"

subsection \<open>Concrete capabilities for the instances\<close>

text \<open>A generator that reads its values from a tape, and detectors with a fixed answer.\<close>

definition draw :: "string list \<Rightarrow> string \<times> string list" where
  "draw tape = (case tape of [] \<Rightarrow> ([], []) | x # xs \<Rightarrow> (x, xs))"

definition scripted :: "string list fake" where
  "scripted =
     \<lparr>name = draw, email = draw, phone_number = draw, credit_card_number = draw, uuid4 = draw\<rparr>"

definition person :: "int \<Rightarrow> int \<Rightarrow> recognizer_result" where
  "person a b = \<lparr>entity_type = ''PERSON'', start = a, end_offset = b\<rparr>"

definition fixed_results :: "recognizer_result list \<Rightarrow> string \<Rightarrow> recognizer_result list" where
  "fixed_results rs text = rs"

section \<open>Facts about the scanner\<close>

lemma lower_ascii_idem: "lower_ascii (lower_ascii c) = lower_ascii c"
  by (auto simp: lower_ascii_def)

lemma match_here_append:
  "map lower_ascii mid = map lower_ascii p \<Longrightarrow> match_here p (mid @ post)"
proof (induction p arbitrary: mid)
  case Nil
  then show ?case by simp
next
  case (Cons a p)
  then obtain c cs where mid: "mid = c # cs" by (cases mid) auto
  with Cons.prems have "lower_ascii c = lower_ascii a" "map lower_ascii cs = map lower_ascii p"
    by auto
  with Cons.IH mid show ?case by simp
qed

lemma search_append_left: "search p t \<Longrightarrow> search p (pre @ t)"
  by (induction pre) auto

lemma search_occurrence:
  "map lower_ascii mid = map lower_ascii p \<Longrightarrow> search p (pre @ mid @ post)"
proof -
  assume "map lower_ascii mid = map lower_ascii p"
  then have "match_here p (mid @ post)" by (rule match_here_append)
  then have "search p (mid @ post)" by (cases "mid @ post") auto
  then show ?thesis by (rule search_append_left)
qed

lemma first_match_mem: "first_match ps text = Some q \<Longrightarrow> q \<in> set ps \<and> search q text"
  by (induction ps) (auto split: if_splits)

lemma first_match_exists:
  "p \<in> set ps \<Longrightarrow> search p text \<Longrightarrow> \<exists>q. first_match ps text = Some q"
  by (induction ps) auto

lemma lower_patterns:
  "p \<in> set injection_patterns \<Longrightarrow> map lower_ascii p = p"
proof -
  have "\<forall>q \<in> set injection_patterns. map lower_ascii q = q"
    by code_simp
  then show "p \<in> set injection_patterns \<Longrightarrow> map lower_ascii p = p"
    by blast
qed

lemma first_match_head: "search p text \<Longrightarrow> first_match (p # ps) text = Some p"
  by simp

lemma scan_on_match:
  "first_match compiled_patterns text = Some q \<Longrightarrow>
   scan clf text = (Inr False, [Prompt_injection_detected q])"
  by (simp add: scan_def)

lemma scan_no_match:
  "first_match compiled_patterns text = None \<Longrightarrow>
   scan clf text =
     (case check_ml clf text of
        (Inl e, lg) \<Rightarrow> (Inl e, lg)
      | (Inr is_safe_ml, lg) \<Rightarrow>
          (if \<not> is_safe_ml then (Inr False, lg @ [Malicious_intent_detected])
           else (Inr True, lg)))"
  by (simp add: scan_def)

lemma check_ml_never_raises_Exception: "fst (check_ml clf text) \<noteq> Inl (Exception e)"
  by (auto simp: check_ml_def split: sum.splits raised.splits)

text \<open>
  C4 (as stated, refuted). The claim gives \<open>scan\<close> a verdict with a reason that equals
  the matched pattern. The source declares \<open>scan(self, text) -> bool\<close> and returns the
  bare \<open>False\<close>: two texts rejected by different patterns give the same returned
  value, so the matched pattern is not part of it.
\<close>

theorem scan_returns_no_reason:
  "fst (scan (constant_classifier (Float 0)) ''jailbreak'') = Inr False
   \<and> fst (scan (constant_classifier (Float 0)) ''unfiltered'') = Inr False
   \<and> first_match compiled_patterns ''jailbreak'' = Some ''jailbreak''
   \<and> first_match compiled_patterns ''unfiltered'' = Some ''unfiltered''"
proof -
  have a: "first_match compiled_patterns ''jailbreak'' = Some ''jailbreak''"
    by code_simp
  have b: "first_match compiled_patterns ''unfiltered'' = Some ''unfiltered''"
    by code_simp
  show ?thesis
    using a b by (simp add: scan_def)
qed

text \<open>
  C4 (amended). For every text \<open>scan\<close> returns a single boolean (or lets a raised
  object outside \<open>Exception\<close> through) and no reason. When the pattern stage rejects,
  the returned value is \<open>False\<close>, and the first pattern of the list that matches
  appears only in the one warning that is logged.
\<close>

theorem scan_verdict_is_boolean:
  "((\<exists>b. fst (scan clf text) = Inr b) \<or> (\<exists>e. fst (scan clf text) = Inl (BaseException e)))
   \<and> (first_match compiled_patterns text = Some pattern \<longrightarrow>
        scan clf text = (Inr False, [Prompt_injection_detected pattern]))"
proof
  show "(\<exists>b. fst (scan clf text) = Inr b) \<or> (\<exists>e. fst (scan clf text) = Inl (BaseException e))"
    by (auto simp: scan_def check_ml_def split: option.splits sum.splits raised.splits)
  show "first_match compiled_patterns text = Some pattern \<longrightarrow>
        scan clf text = (Inr False, [Prompt_injection_detected pattern])"
    by (simp add: scan_on_match)
qed

theorem scan_verdict_is_boolean_witness:
  "first_match compiled_patterns ''enable Developer Mode'' = Some ''developer mode''
   \<and> scan (constant_classifier (Float 0)) ''enable Developer Mode''
       = (Inr False, [Prompt_injection_detected ''developer mode''])"
proof -
  have a: "first_match compiled_patterns ''enable Developer Mode'' = Some ''developer mode''"
    by code_simp
  show ?thesis
    using a scan_verdict_is_boolean
      [of "constant_classifier (Float 0)" "''enable Developer Mode''" "''developer mode''"]
    by simp
qed

text \<open>
  C5. A text that contains one of the fixed patterns in any mix of upper and lower
  case is rejected by the pattern stage: the result is \<open>False\<close> with the single
  pattern warning, the same for every classifier, so the classifier stage is not run
  (it would log a record of its own). For the first pattern of the list,
  \<open>ignore previous instructions\<close>, the pattern reported is that one.
\<close>

theorem scan_pattern_short_circuit:
  assumes "p \<in> set injection_patterns" and "map lower_ascii mid = p"
  shows "(\<exists>q \<in> set injection_patterns.
            \<forall>clf. scan clf (pre @ mid @ post) = (Inr False, [Prompt_injection_detected q]))
         \<and> (p = ''ignore previous instructions'' \<longrightarrow>
              (\<forall>clf. scan clf (pre @ mid @ post) = (Inr False, [Prompt_injection_detected p])))"
proof
  have "map lower_ascii mid = map lower_ascii p"
    using assms by (simp add: lower_patterns)
  then have s: "search p (pre @ mid @ post)"
    by (rule search_occurrence)
  from assms(1) have "p \<in> set compiled_patterns"
    by (simp add: compiled_patterns_def)
  with s obtain q where q: "first_match compiled_patterns (pre @ mid @ post) = Some q"
    using first_match_exists by blast
  then have "q \<in> set injection_patterns"
    using first_match_mem by (fastforce simp: compiled_patterns_def)
  with q show "\<exists>q \<in> set injection_patterns.
      \<forall>clf. scan clf (pre @ mid @ post) = (Inr False, [Prompt_injection_detected q])"
    using scan_on_match by blast
  show "p = ''ignore previous instructions'' \<longrightarrow>
      (\<forall>clf. scan clf (pre @ mid @ post) = (Inr False, [Prompt_injection_detected p]))"
  proof (intro impI allI)
    fix clf
    assume "p = ''ignore previous instructions''"
    then have "first_match compiled_patterns (pre @ mid @ post) = Some p"
      using s by (simp add: compiled_patterns_def injection_patterns_def)
    then show "scan clf (pre @ mid @ post) = (Inr False, [Prompt_injection_detected p])"
      by (rule scan_on_match)
  qed
qed

theorem scan_pattern_short_circuit_witness:
  "''ignore previous instructions'' \<in> set injection_patterns
   \<and> map lower_ascii ''IGNORE Previous Instructions'' = ''ignore previous instructions''
   \<and> (\<forall>clf. scan clf (''Please '' @ ''IGNORE Previous Instructions'' @ '' now'')
        = (Inr False, [Prompt_injection_detected ''ignore previous instructions'']))"
proof -
  have a: "''ignore previous instructions'' \<in> set injection_patterns"
    by code_simp
  have b: "map lower_ascii ''IGNORE Previous Instructions'' = ''ignore previous instructions''"
    by code_simp
  show ?thesis
    using a b scan_pattern_short_circuit [OF a b, of "''Please ''" "'' now''"]
    by blast
qed

text \<open>
  C6. When no pattern matches and the classifier stage raises an \<open>Exception\<close>,
  \<open>scan\<close> returns \<open>True\<close>; the exception is logged and not propagated.
\<close>

theorem scan_fail_open:
  assumes "first_match compiled_patterns text = None" and "clf text = Inl (Exception e)"
  shows "scan clf text = (Inr True, [Error_during_ML_scan (Exception e)])"
  using assms by (simp add: scan_no_match check_ml_def)

theorem scan_fail_open_witness:
  "first_match compiled_patterns ''hello'' = None
   \<and> failing_classifier ''RuntimeError'' ''hello'' = Inl (Exception ''RuntimeError'')
   \<and> scan (failing_classifier ''RuntimeError'') ''hello''
       = (Inr True, [Error_during_ML_scan (Exception ''RuntimeError'')])"
proof -
  have a: "first_match compiled_patterns ''hello'' = None"
    by code_simp
  have b: "failing_classifier ''RuntimeError'' ''hello'' = Inl (Exception ''RuntimeError'')"
    by (simp add: failing_classifier_def)
  show ?thesis
    using a b scan_fail_open [of "''hello''" "failing_classifier ''RuntimeError''" "''RuntimeError''"]
    by simp
qed

text \<open>
  C8. When no pattern matches and the classifier yields the negative-class score
  \<open>sc\<close>, \<open>scan\<close> returns \<open>True\<close> exactly when \<open>sc \<le> 0.99\<close>: a score at the
  threshold is safe, and only a score strictly above it gives \<open>False\<close>.
\<close>

theorem scan_threshold:
  assumes "first_match compiled_patterns text = None" and "clf text = Inr (Float sc)"
  shows "fst (scan clf text) = Inr (sc \<le> 0.99)"
  using assms by (auto simp: scan_no_match check_ml_def)

theorem scan_threshold_witness:
  "first_match compiled_patterns ''hello'' = None
   \<and> constant_classifier (Float 0.99) ''hello'' = Inr (Float 0.99)
   \<and> fst (scan (constant_classifier (Float 0.99)) ''hello'') = Inr True"
proof -
  have a: "first_match compiled_patterns ''hello'' = None"
    by code_simp
  have b: "constant_classifier (Float 0.99) ''hello'' = Inr (Float 0.99)"
    by (simp add: constant_classifier_def)
  show ?thesis
    using a b scan_threshold [of "''hello''" "constant_classifier (Float 0.99)" "0.99"]
    by simp
qed

section \<open>Facts about the vault\<close>

subsection \<open>A text without matches\<close>

lemma sort_results_Nil: "sort_results [] = []"
  by (simp add: sort_results_def)

text \<open>
  C3 (as stated, refuted). The claim says that \<open>anonymize\<close> of a text without
  matches performs no write, so that the store after the call equals the store before.
  The read-modify-write of the session's key list (lines 99 to 102 of the source) is
  outside the loop and runs on every call: on the empty text and an empty store the
  call leaves an entry under \<open>session:s:keys\<close>.
\<close>

theorem anonymize_empty_text_writes:
  "anonymize scripted (fixed_results []) [] ''s'' (Map.empty, [])
     = Inr ([], [session_keys_key ''s'' \<mapsto> Lst []], [])
   \<and> [session_keys_key ''s'' \<mapsto> Lst []] \<noteq> (Map.empty :: storage)"
proof
  show "anonymize scripted (fixed_results []) [] ''s'' (Map.empty, [])
     = Inr ([], [session_keys_key ''s'' \<mapsto> Lst []], [])"
    by (simp add: anonymize_def fixed_results_def sort_results_Nil)
  have "[session_keys_key ''s'' \<mapsto> Lst []] (session_keys_key ''s'')
          \<noteq> (Map.empty :: storage) (session_keys_key ''s'')"
    by simp
  then show "[session_keys_key ''s'' \<mapsto> Lst []] \<noteq> (Map.empty :: storage)"
    by metis
qed

text \<open>
  C3 (amended). \<open>anonymize\<close> of a text in which the detector finds no match returns
  the text unchanged and writes exactly one entry, the session's key list: the list it
  held before, or the empty list when the session had none. No other key changes.
  (Where that key holds a string, the call raises.)
\<close>

theorem anonymize_no_matches:
  assumes "analyze text = []"
  shows "anonymize fk analyze text session_id (vault_storage, g) =
     (case vault_storage (session_keys_key session_id) of
        None \<Rightarrow> Inr (text, vault_storage(session_keys_key session_id \<mapsto> Lst []), g)
      | Some (Lst ks) \<Rightarrow> Inr (text, vault_storage(session_keys_key session_id \<mapsto> Lst ks), g)
      | Some (Str s) \<Rightarrow> Inl (Exception ''AttributeError''))"
  using assms
  by (simp add: anonymize_def sort_results_Nil split: option.splits cached.splits)

theorem anonymize_no_matches_witness:
  "fixed_results [] ''hello'' = []
   \<and> anonymize scripted (fixed_results []) ''hello'' ''s'' (Map.empty, [])
       = Inr (''hello'', [session_keys_key ''s'' \<mapsto> Lst []], [])"
proof -
  have a: "fixed_results [] ''hello'' = []"
    by (simp add: fixed_results_def)
  show ?thesis
    using a anonymize_no_matches
      [of "fixed_results []" "''hello''" scripted "''s''" Map.empty "[]"]
    by simp
qed

subsection \<open>Falsy original values\<close>

lemma deanonymize_loop_falsy:
  assumes "v = Str [] \<or> v = Lst []"
  shows "deanonymize_loop (vs(k \<mapsto> v)) sid ks t = deanonymize_loop (vs(k := None)) sid ks t"
  using assms
  by (induction ks arbitrary: t) (auto split: option.splits cached.splits)

text \<open>
  C10. In \<open>deanonymize\<close> an entry whose value is falsy (the empty string, or the
  empty list) has the effect of a missing entry: the result is the one obtained with
  the entry removed, and the step for that placeholder leaves the text as it is instead
  of replacing the placeholder by the empty string.
\<close>

theorem deanonymize_falsy_as_missing:
  assumes "v = Str [] \<or> v = Lst []"
  shows "deanonymize text sid (vs(mapping_key sid p \<mapsto> v))
           = deanonymize text sid (vs(mapping_key sid p := None))
         \<and> deanonymize_loop (vs(mapping_key sid p \<mapsto> v)) sid [p] text = Inr text"
proof
  show "deanonymize text sid (vs(mapping_key sid p \<mapsto> v))
           = deanonymize text sid (vs(mapping_key sid p := None))"
  proof (cases "mapping_key sid p = session_keys_key sid")
    case True
    with assms show ?thesis by (auto simp: deanonymize_def)
  next
    case False
    then show ?thesis
      using deanonymize_loop_falsy [OF assms] by (simp add: deanonymize_def)
  qed
  show "deanonymize_loop (vs(mapping_key sid p \<mapsto> v)) sid [p] text = Inr text"
    using assms by auto
qed

theorem deanonymize_falsy_as_missing_witness:
  "(Str [] = Str [] \<or> Str [] = Lst [])
   \<and> deanonymize ''Hi Raj'' ''s''
        ([session_keys_key ''s'' \<mapsto> Lst [''Raj''], mapping_key ''s'' ''Raj'' \<mapsto> Str []])
       = Inr ''Hi Raj''
   \<and> deanonymize ''Hi Raj'' ''s''
        ([session_keys_key ''s'' \<mapsto> Lst [''Raj''], mapping_key ''s'' ''Raj'' \<mapsto> Str ''Al''])
       = Inr ''Hi Al''"
proof -
  have a: "Str [] = Str [] \<or> Str [] = Lst []"
    by simp
  have b: "deanonymize ''Hi Raj'' ''s''
        (([session_keys_key ''s'' \<mapsto> Lst [''Raj'']])(mapping_key ''s'' ''Raj'' := None))
       = Inr ''Hi Raj''"
    by (simp add: deanonymize_def session_keys_key_def mapping_key_def sublist_code)
  have c: "deanonymize ''Hi Raj'' ''s''
        ([session_keys_key ''s'' \<mapsto> Lst [''Raj''], mapping_key ''s'' ''Raj'' \<mapsto> Str ''Al''])
       = Inr ''Hi Al''"
    by (simp add: deanonymize_def session_keys_key_def mapping_key_def sublist_code replace_def)
  show ?thesis
    using a b c deanonymize_falsy_as_missing
      [OF a, of "''Hi Raj''" "''s''" "[session_keys_key ''s'' \<mapsto> Lst [''Raj'']]" "''Raj''"]
    by simp
qed

subsection \<open>What the loop computes\<close>

lemma anonymize_loop_eq:
  "anonymize_loop fk text sid rs (l, nm, vs, g)
     = (splice l (issue fk rs g), note_all text (issue fk rs g) nm,
        record_all text sid (issue fk rs g) vs, draw_all fk rs g)"
proof (induction rs arbitrary: l nm vs g)
  case Nil
  then show ?case by simp
next
  case (Cons r rs)
  obtain p g1 where gen: "generate_fake_data fk (entity_type r) g = (p, g1)"
    by (cases "generate_fake_data fk (entity_type r) g")
  show ?case
    by (simp add: gen Let_def Cons.IH fun_upd_def)
qed

lemma anonymize_loop_append:
  "anonymize_loop fk text sid (xs @ ys) st
     = anonymize_loop fk text sid ys (anonymize_loop fk text sid xs st)"
proof (induction xs arbitrary: st)
  case Nil
  then show ?case by simp
next
  case (Cons r xs)
  obtain l nm vs g where st: "st = (l, nm, vs, g)" by (cases st) auto
  show ?case
    by (simp add: st Cons.IH Let_def split: prod.splits)
qed

lemma storage_after_eq:
  "storage_after fk text sid rs vs g = record_all text sid (issue fk rs g) vs"
  by (simp add: storage_after_def anonymize_loop_eq)

lemma mapping_key_inj [simp]: "mapping_key sid p = mapping_key sid q \<longleftrightarrow> p = q"
  by (simp add: mapping_key_def)

lemma session_keys_key_inj [simp]: "session_keys_key a = session_keys_key b \<longleftrightarrow> a = b"
  by (simp add: session_keys_key_def)

lemma mapping_key_is_keys [simp]:
  "mapping_key sid p = session_keys_key sid \<longleftrightarrow> p = ''keys''"
  by (simp add: mapping_key_def session_keys_key_def)

lemma record_all_other:
  "\<forall>(r, p) \<in> set ds. mapping_key sid p \<noteq> k \<Longrightarrow> record_all text sid ds vs k = vs k"
  by (induction ds arbitrary: vs) auto

lemma record_all_not_None: "vs k \<noteq> None \<Longrightarrow> record_all text sid ds vs k \<noteq> None"
  by (induction ds arbitrary: vs) auto

lemma record_all_Lst:
  "record_all text sid ds vs k = Some (Lst ks) \<Longrightarrow> vs k = Some (Lst ks)"
proof (induction ds arbitrary: vs)
  case Nil
  then show ?case by simp
next
  case (Cons d ds)
  obtain r p where d: "d = (r, p)" by (cases d)
  from Cons.prems have a: "record_all text sid ds
      (vs(mapping_key sid p \<mapsto> Str (slice text (start r) (end_offset r)))) k = Some (Lst ks)"
    by (simp add: d)
  have "(vs(mapping_key sid p \<mapsto> Str (slice text (start r) (end_offset r)))) k = Some (Lst ks)"
    by (rule Cons.IH [OF a])
  then show ?case by (auto split: if_splits)
qed

lemma record_all_hit:
  "(r, p) \<in> set ds \<Longrightarrow> record_all text sid ds vs (mapping_key sid p) \<noteq> None"
proof (induction ds arbitrary: vs)
  case Nil
  then show ?case by simp
next
  case (Cons d ds)
  obtain r' p' where d: "d = (r', p')" by (cases d)
  show ?case
  proof (cases "(r, p) \<in> set ds")
    case True
    then show ?thesis using Cons.IH by (simp add: d)
  next
    case False
    with Cons.prems have "d = (r, p)" by simp
    then show ?thesis
      by (simp add: record_all_not_None)
  qed
qed

lemma record_all_value:
  "(r, p) \<in> set ds \<Longrightarrow> distinct (map snd ds) \<Longrightarrow>
   record_all text sid ds vs (mapping_key sid p) = Some (Str (slice text (start r) (end_offset r)))"
proof (induction ds arbitrary: vs)
  case Nil
  then show ?case by simp
next
  case (Cons d ds)
  obtain r' p' where d: "d = (r', p')" by (cases d)
  show ?case
  proof (cases "(r, p) \<in> set ds")
    case True
    then show ?thesis using Cons.IH Cons.prems by (simp add: d)
  next
    case False
    with Cons.prems have e: "d = (r, p)" by simp
    with Cons.prems have "p \<notin> snd ` set ds" by simp
    then have "\<forall>(r', q) \<in> set ds. mapping_key sid q \<noteq> mapping_key sid p"
      by force
    then show ?thesis
      by (simp add: e record_all_other)
  qed
qed

lemma note_all_keys:
  "fst ` set (note_all text ds nm) = fst ` set nm \<union> snd ` set ds"
proof (induction ds arbitrary: nm)
  case Nil
  then show ?case by simp
next
  case (Cons d ds)
  obtain r p where d: "d = (r, p)" by (cases d)
  have "fst ` set (note_all text (d # ds) nm)
      = fst ` set (AList.update p (slice text (start r) (end_offset r)) nm) \<union> snd ` set ds"
    using Cons.IH by (simp add: d)
  also have "\<dots> = ({p} \<union> fst ` set nm) \<union> snd ` set ds"
    by (simp add: dom_update)
  finally show ?case by (auto simp: d)
qed

lemma anonymize_unfold:
  "anonymize fk analyze text sid (vs, g) =
     (case record_all text sid (issue fk (sort_results (analyze text)) g) vs (session_keys_key sid) of
        None \<Rightarrow>
          Inr (splice text (issue fk (sort_results (analyze text)) g),
               (record_all text sid (issue fk (sort_results (analyze text)) g) vs)
                 (session_keys_key sid \<mapsto>
                    Lst (map fst (note_all text (issue fk (sort_results (analyze text)) g) []))),
               draw_all fk (sort_results (analyze text)) g)
      | Some (Lst cur) \<Rightarrow>
          Inr (splice text (issue fk (sort_results (analyze text)) g),
               (record_all text sid (issue fk (sort_results (analyze text)) g) vs)
                 (session_keys_key sid \<mapsto>
                    Lst (cur @ map fst (note_all text (issue fk (sort_results (analyze text)) g) []))),
               draw_all fk (sort_results (analyze text)) g)
      | Some (Str s) \<Rightarrow> Inl (Exception ''AttributeError''))"
  by (simp add: anonymize_def anonymize_loop_eq split: option.splits cached.splits)

lemma anonymize_Inr:
  assumes "anonymize fk analyze text sid (vs, g) = Inr (out, vs', g')"
  shows "\<exists>cur.
      (record_all text sid (issue fk (sort_results (analyze text)) g) vs (session_keys_key sid) = None
         \<and> cur = []
       \<or> record_all text sid (issue fk (sort_results (analyze text)) g) vs (session_keys_key sid)
           = Some (Lst cur))
      \<and> vs' = (record_all text sid (issue fk (sort_results (analyze text)) g) vs)
                 (session_keys_key sid \<mapsto>
                    Lst (cur @ map fst (note_all text (issue fk (sort_results (analyze text)) g) [])))
      \<and> out = splice text (issue fk (sort_results (analyze text)) g)"
proof (cases "record_all text sid (issue fk (sort_results (analyze text)) g) vs (session_keys_key sid)")
  case None
  with assms show ?thesis by (simp add: anonymize_unfold)
next
  case (Some c)
  show ?thesis
  proof (cases c)
    case (Str s)
    with Some assms show ?thesis by (simp add: anonymize_unfold)
  next
    case (Lst cur)
    with Some assms show ?thesis by (simp add: anonymize_unfold)
  qed
qed

lemma backed_record_all:
  assumes "backed vs"
  shows "backed (record_all text sid ds vs)"
  unfolding backed_def
proof (intro allI impI ballI)
  fix s ks p
  assume a: "record_all text sid ds vs (session_keys_key s) = Some (Lst ks)" and p: "p \<in> set ks"
  from a have "vs (session_keys_key s) = Some (Lst ks)" by (rule record_all_Lst)
  with assms p have "vs (mapping_key s p) \<noteq> None" unfolding backed_def by blast
  then show "record_all text sid ds vs (mapping_key s p) \<noteq> None"
    by (rule record_all_not_None)
qed

subsection \<open>Placeholder lists and their mapping records\<close>

lemma backed_anonymize:
  assumes b: "backed vs" and an: "anonymize fk analyze text sid (vs, g) = Inr (out, vs', g')"
  shows "backed vs'"
    and "\<forall>ks. vs' (session_keys_key sid) = Some (Lst ks) \<longrightarrow>
           (\<forall>p \<in> set ks. storage_after fk text sid (sort_results (analyze text)) vs g
                             (mapping_key sid p) \<noteq> None)"
proof -
  define ds where "ds = issue fk (sort_results (analyze text)) g"
  define vs1 where "vs1 = record_all text sid ds vs"
  define new where "new = map fst (note_all text ds [])"
  have "fst ` set (note_all text ds []) = snd ` set ds"
    by (simp add: note_all_keys)
  then have new: "set new = snd ` set ds"
    by (simp add: new_def)
  have b1: "backed vs1"
    using b by (simp add: vs1_def backed_record_all)
  obtain cur where cur: "vs1 (session_keys_key sid) = None \<and> cur = []
                          \<or> vs1 (session_keys_key sid) = Some (Lst cur)"
    and vs': "vs' = vs1(session_keys_key sid \<mapsto> Lst (cur @ new))"
    using anonymize_Inr [OF an] unfolding ds_def vs1_def new_def by blast
  have old: "vs1 (mapping_key sid p) \<noteq> None" if "p \<in> set cur" for p
  proof -
    from cur that have "vs1 (session_keys_key sid) = Some (Lst cur)" by auto
    with b1 that show ?thesis unfolding backed_def by blast
  qed
  have fresh: "vs1 (mapping_key sid p) \<noteq> None" if "p \<in> set new" for p
  proof -
    from that new obtain r where "(r, p) \<in> set ds" by auto
    then show ?thesis unfolding vs1_def by (rule record_all_hit)
  qed
  have both: "vs1 (mapping_key sid p) \<noteq> None" if "p \<in> set (cur @ new)" for p
    using that old fresh by auto
  show "backed vs'"
    unfolding backed_def
  proof (intro allI impI ballI)
    fix s ks p
    assume a: "vs' (session_keys_key s) = Some (Lst ks)" and p: "p \<in> set ks"
    have "vs1 (mapping_key s p) \<noteq> None"
    proof (cases "s = sid")
      case True
      with a vs' have "ks = cur @ new" by simp
      with p both True show ?thesis by simp
    next
      case False
      with a vs' have "vs1 (session_keys_key s) = Some (Lst ks)" by simp
      with b1 p show ?thesis unfolding backed_def by blast
    qed
    then show "vs' (mapping_key s p) \<noteq> None"
      by (simp add: vs')
  qed
  show "\<forall>ks. vs' (session_keys_key sid) = Some (Lst ks) \<longrightarrow>
           (\<forall>p \<in> set ks. storage_after fk text sid (sort_results (analyze text)) vs g
                             (mapping_key sid p) \<noteq> None)"
  proof (intro allI impI ballI)
    fix ks p
    assume a: "vs' (session_keys_key sid) = Some (Lst ks)" and p: "p \<in> set ks"
    from a vs' have "ks = cur @ new" by simp
    with p both have "vs1 (mapping_key sid p) \<noteq> None" by simp
    then show "storage_after fk text sid (sort_results (analyze text)) vs g (mapping_key sid p) \<noteq> None"
      by (simp add: storage_after_eq vs1_def ds_def)
  qed
qed

text \<open>
  C9. Writing the key list is the last write of \<open>anonymize\<close>. The cache after any
  number \<open>n\<close> of iterations of the loop (the states an interrupted call can leave)
  is backed when the cache before the call is, and every placeholder list found in it
  is one that was there before the call: the loop updates no placeholder list. After a
  completed call the cache is backed again, and each placeholder of the session's list
  already had its entry in the cache that the loop left, before the list was written.
  Entries are never deleted here (no expiry, no eviction). By \<open>anonymize_loop_append\<close>
  the state after \<open>n\<close> iterations is the loop run over the first \<open>n\<close> results.
\<close>

theorem placeholder_sets_stay_backed:
  assumes "backed vs"
  shows "(\<forall>n. backed (storage_after fk text sid (take n (sort_results (analyze text))) vs g)
             \<and> (\<forall>s ks. storage_after fk text sid (take n (sort_results (analyze text))) vs g
                          (session_keys_key s) = Some (Lst ks)
                        \<longrightarrow> vs (session_keys_key s) = Some (Lst ks)))
         \<and> (\<forall>out vs' g'. anonymize fk analyze text sid (vs, g) = Inr (out, vs', g') \<longrightarrow>
              backed vs'
              \<and> (\<forall>ks. vs' (session_keys_key sid) = Some (Lst ks) \<longrightarrow>
                    (\<forall>p \<in> set ks. storage_after fk text sid (sort_results (analyze text)) vs g
                                      (mapping_key sid p) \<noteq> None)))"
proof (intro conjI allI impI)
  fix n
  show "backed (storage_after fk text sid (take n (sort_results (analyze text))) vs g)"
    using assms by (simp add: storage_after_eq backed_record_all)
next
  fix n s ks
  assume "storage_after fk text sid (take n (sort_results (analyze text))) vs g
            (session_keys_key s) = Some (Lst ks)"
  then show "vs (session_keys_key s) = Some (Lst ks)"
    unfolding storage_after_eq by (rule record_all_Lst)
next
  fix out vs' g'
  assume "anonymize fk analyze text sid (vs, g) = Inr (out, vs', g')"
  then show "backed vs'"
    using assms by (rule backed_anonymize(1) [rotated])
next
  fix out vs' g' ks
  assume an: "anonymize fk analyze text sid (vs, g) = Inr (out, vs', g')"
    and ks: "vs' (session_keys_key sid) = Some (Lst ks)"
  show "\<forall>p \<in> set ks. storage_after fk text sid (sort_results (analyze text)) vs g
                                      (mapping_key sid p) \<noteq> None"
    using backed_anonymize(2) [OF assms an] ks by blast
qed

theorem placeholder_sets_stay_backed_witness:
  "backed Map.empty
   \<and> backed (storage_after scripted ''Hi Al'' ''s''
               (take 1 (sort_results (fixed_results [person 3 5] ''Hi Al''))) Map.empty [''Raj''])
   \<and> storage_after scripted ''Hi Al'' ''s''
        (take 1 (sort_results (fixed_results [person 3 5] ''Hi Al''))) Map.empty [''Raj'']
        (mapping_key ''s'' ''Raj'') = Some (Str ''Al'')
   \<and> storage_after scripted ''Hi Al'' ''s''
        (take 1 (sort_results (fixed_results [person 3 5] ''Hi Al''))) Map.empty [''Raj'']
        (session_keys_key ''s'') = None"
proof -
  have a: "backed Map.empty"
    by (simp add: backed_def)
  have b: "storage_after scripted ''Hi Al'' ''s''
        (take 1 (sort_results (fixed_results [person 3 5] ''Hi Al''))) Map.empty [''Raj'']
        (mapping_key ''s'' ''Raj'') = Some (Str ''Al'')"
    by (simp add: storage_after_def sort_results_def fixed_results_def person_def scripted_def
        draw_def generate_fake_data_def slice_def slice_index_def mapping_key_def Let_def)
  have c: "storage_after scripted ''Hi Al'' ''s''
        (take 1 (sort_results (fixed_results [person 3 5] ''Hi Al''))) Map.empty [''Raj'']
        (session_keys_key ''s'') = None"
    by (simp add: storage_after_def sort_results_def fixed_results_def person_def scripted_def
        draw_def generate_fake_data_def slice_def slice_index_def mapping_key_def Let_def session_keys_key_def)
  show ?thesis
    using a b c placeholder_sets_stay_backed
      [OF a, of scripted "''Hi Al''" "''s''" "fixed_results [person 3 5]" "[''Raj'']"]
    by blast
qed

subsection \<open>Session isolation\<close>

lemma keys_suffix_cases:
  assumes "us @ p = '':keys''" and "s1 @ '':'' = s2 @ us"
  shows "s1 = s2 \<or> suffix '':keys'' p"
proof -
  from assms(1) have "us = [] \<or> us = '':'' \<or> us = '':k'' \<or> us = '':ke'' \<or> us = '':key'' \<or> us = '':keys''"
    by (auto simp: append_eq_Cons_conv)
  then show ?thesis
  proof (elim disjE)
    assume "us = []"
    with assms(1) show ?thesis by simp
  next
    assume "us = '':''"
    with assms(2) show ?thesis by simp
  next
    assume u: "us = '':k''"
    from assms(2) have "last (s1 @ '':'') = last (s2 @ us)" by simp
    with u show ?thesis by simp
  next
    assume u: "us = '':ke''"
    from assms(2) have "last (s1 @ '':'') = last (s2 @ us)" by simp
    with u show ?thesis by simp
  next
    assume u: "us = '':key''"
    from assms(2) have "last (s1 @ '':'') = last (s2 @ us)" by simp
    with u show ?thesis by simp
  next
    assume u: "us = '':keys''"
    from assms(2) have "last (s1 @ '':'') = last (s2 @ us)" by simp
    with u show ?thesis by simp
  qed
qed

lemma mapping_key_not_other_keys:
  assumes "s1 \<noteq> s2" and "\<not> suffix '':keys'' p"
  shows "mapping_key s1 p \<noteq> session_keys_key s2"
proof
  assume "mapping_key s1 p = session_keys_key s2"
  then have "(s1 @ '':'') @ p = s2 @ '':keys''"
    by (simp add: mapping_key_def session_keys_key_def)
  then obtain us where "(s1 @ '':'' = s2 @ us \<and> us @ p = '':keys'')
      \<or> ((s1 @ '':'') @ us = s2 \<and> p = us @ '':keys'')"
    unfolding append_eq_append_conv2 by blast
  then show False
  proof
    assume "s1 @ '':'' = s2 @ us \<and> us @ p = '':keys''"
    then have "s1 = s2 \<or> suffix '':keys'' p" using keys_suffix_cases by blast
    with assms show False by simp
  next
    assume "(s1 @ '':'') @ us = s2 \<and> p = us @ '':keys''"
    then have "suffix '':keys'' p" by (simp add: suffix_def)
    with assms show False by simp
  qed
qed

lemma deanonymize_no_keys:
  "vs (session_keys_key sid) = None \<Longrightarrow> deanonymize t sid vs = Inr t"
  by (simp add: deanonymize_def)

text \<open>
  C2. Let \<open>s1\<close> and \<open>s2\<close> be distinct session ids, \<open>s2\<close> without a placeholder
  list in the cache. Then \<open>deanonymize\<close> under \<open>s2\<close> returns the output of
  \<open>anonymize\<close> under \<open>s1\<close> unchanged. The generator is external; what is used of it
  is that no placeholder it issues ends with \<open>:keys\<close>, so that no mapping key of
  \<open>s1\<close> is the key of the placeholder list of \<open>s2\<close>.
\<close>

theorem other_session_restores_nothing:
  assumes "s1 \<noteq> s2"
    and "vs (session_keys_key s2) = None"
    and "\<forall>(r, p) \<in> set (issue fk (sort_results (analyze text)) g). \<not> suffix '':keys'' p"
    and "anonymize fk analyze text s1 (vs, g) = Inr (out, vs', g')"
  shows "deanonymize out s2 vs' = Inr out"
proof -
  define ds where "ds = issue fk (sort_results (analyze text)) g"
  obtain cur where vs': "vs' = (record_all text s1 ds vs)
      (session_keys_key s1 \<mapsto> Lst (cur @ map fst (note_all text ds [])))"
    using anonymize_Inr [OF assms(4)] unfolding ds_def by blast
  have "\<forall>(r, p) \<in> set ds. mapping_key s1 p \<noteq> session_keys_key s2"
    using assms(1,3) mapping_key_not_other_keys unfolding ds_def by blast
  then have "record_all text s1 ds vs (session_keys_key s2) = vs (session_keys_key s2)"
    by (rule record_all_other)
  with assms(1,2) have "vs' (session_keys_key s2) = None"
    by (simp add: vs')
  then show ?thesis by (rule deanonymize_no_keys)
qed

theorem other_session_restores_nothing_witness:
  "''sess-1'' \<noteq> ''sess-2''
   \<and> (Map.empty :: storage) (session_keys_key ''sess-2'') = None
   \<and> issue scripted
        (sort_results (fixed_results [person 11 23] ''My name is Sarah Connor.'')) [''Raj Kumar'']
       = [(person 11 23, ''Raj Kumar'')]
   \<and> \<not> suffix '':keys'' ''Raj Kumar''
   \<and> anonymize scripted (fixed_results [person 11 23]) ''My name is Sarah Connor.'' ''sess-1''
        (Map.empty, [''Raj Kumar''])
       = Inr (''My name is Raj Kumar.'',
              [mapping_key ''sess-1'' ''Raj Kumar'' \<mapsto> Str ''Sarah Connor'',
               session_keys_key ''sess-1'' \<mapsto> Lst [''Raj Kumar'']], [])
   \<and> deanonymize ''My name is Raj Kumar.'' ''sess-2''
        [mapping_key ''sess-1'' ''Raj Kumar'' \<mapsto> Str ''Sarah Connor'',
         session_keys_key ''sess-1'' \<mapsto> Lst [''Raj Kumar'']]
       = Inr ''My name is Raj Kumar.''"
proof -
  have a: "''sess-1'' \<noteq> ''sess-2''" by simp
  have b: "(Map.empty :: storage) (session_keys_key ''sess-2'') = None" by simp
  have c: "\<forall>(r, p) \<in> set (issue scripted
          (sort_results (fixed_results [person 11 23] ''My name is Sarah Connor.'')) [''Raj Kumar'']).
         \<not> suffix '':keys'' p"
    by (simp add: sort_results_def fixed_results_def person_def scripted_def draw_def
        generate_fake_data_def suffix_def)
  have d: "anonymize scripted (fixed_results [person 11 23]) ''My name is Sarah Connor.'' ''sess-1''
        (Map.empty, [''Raj Kumar''])
       = Inr (''My name is Raj Kumar.'',
              [mapping_key ''sess-1'' ''Raj Kumar'' \<mapsto> Str ''Sarah Connor'',
               session_keys_key ''sess-1'' \<mapsto> Lst [''Raj Kumar'']], [])"
    by (simp add: anonymize_def sort_results_def fixed_results_def person_def scripted_def draw_def
        generate_fake_data_def slice_def slice_assign_def slice_index_def Let_def
        mapping_key_def session_keys_key_def)
  have i: "issue scripted
        (sort_results (fixed_results [person 11 23] ''My name is Sarah Connor.'')) [''Raj Kumar'']
       = [(person 11 23, ''Raj Kumar'')]"
    by (simp add: sort_results_def fixed_results_def person_def scripted_def draw_def
        generate_fake_data_def)
  have k: "\<not> suffix '':keys'' ''Raj Kumar''"
    by (simp add: suffix_def)
  show ?thesis
    using a b i k d other_session_restores_nothing [OF a b c d] by simp
qed

subsection \<open>Replacing the spans back to front\<close>

lemma sort_results_set [simp]: "set (sort_results rs) = set rs"
  by (simp add: sort_results_def)

lemma sort_results_length [simp]: "length (sort_results rs) = length rs"
  by (simp add: sort_results_def)

lemma sort_results_distinct [simp]: "distinct (sort_results rs) = distinct rs"
  by (simp add: sort_results_def)

lemma sort_results_descending: "sorted_wrt (\<lambda>a b. start b \<le> start a) (sort_results rs)"
proof -
  have "sorted (map start (sort_key start (rev rs)))"
    by (rule sorted_sort_key)
  then have "sorted_wrt (\<lambda>a b. start a \<le> start b) (sort_key start (rev rs))"
    by (simp add: sorted_map)
  then show ?thesis
    by (simp add: sort_results_def sorted_wrt_rev)
qed

lemma non_overlapping_pairs:
  assumes "non_overlapping rs" and "\<forall>r \<in> set rs. start r < end_offset r"
  shows "distinct rs \<and> (\<forall>a \<in> set rs. \<forall>b \<in> set rs. a \<noteq> b \<longrightarrow> disjoint_spans a b)"
  using assms
proof (induction rs)
  case Nil
  then show ?case by simp
next
  case (Cons r rs)
  then have ih: "distinct rs" "\<forall>a \<in> set rs. \<forall>b \<in> set rs. a \<noteq> b \<longrightarrow> disjoint_spans a b"
    by auto
  from Cons.prems have d: "\<forall>q \<in> set rs. disjoint_spans r q"
    by (simp add: list_all_iff)
  from Cons.prems have ne: "start r < end_offset r" by simp
  have "r \<notin> set rs"
  proof
    assume "r \<in> set rs"
    with d have "disjoint_spans r r" by blast
    with ne show False by (simp add: disjoint_spans_def)
  qed
  moreover have "\<forall>q \<in> set rs. disjoint_spans q r"
    using d by (auto simp: disjoint_spans_def)
  ultimately show ?case
    using ih d by auto
qed

lemma descending_chain:
  assumes "non_overlapping rs" and "\<forall>r \<in> set rs. start r < end_offset r"
  shows "sorted_wrt (\<lambda>a b. end_offset b \<le> start a) (sort_results rs)"
proof -
  from non_overlapping_pairs [OF assms]
  have dist: "distinct (sort_results rs)"
    and disj: "\<forall>a \<in> set rs. \<forall>b \<in> set rs. a \<noteq> b \<longrightarrow> disjoint_spans a b"
    by simp_all
  have desc: "sorted_wrt (\<lambda>a b. start b \<le> start a) (sort_results rs)"
    by (rule sort_results_descending)
  show ?thesis
    unfolding sorted_wrt_iff_nth_less
  proof (intro allI impI)
    fix i j
    assume ij: "i < j" and j: "j < length (sort_results rs)"
    let ?a = "sort_results rs ! i" and ?b = "sort_results rs ! j"
    from ij j have ia: "?a \<in> set rs" and ib: "?b \<in> set rs"
      using nth_mem [of i "sort_results rs"] nth_mem [of j "sort_results rs"] by simp_all
    from ij j dist have "?a \<noteq> ?b"
      by (simp add: nth_eq_iff_index_eq)
    with disj ia ib have "disjoint_spans ?a ?b" by blast
    moreover from desc ij j have "start ?b \<le> start ?a"
      by (simp add: sorted_wrt_iff_nth_less)
    moreover from assms(2) ia have "start ?a < end_offset ?a" by blast
    ultimately show "end_offset ?b \<le> start ?a"
      by (auto simp: disjoint_spans_def)
  qed
qed

lemma issue_results [simp]: "map fst (issue fk rs g) = rs"
  by (induction rs arbitrary: g) (auto split: prod.splits)

lemma slice_assign_inside:
  assumes "0 \<le> s" and "s \<le> e" and "nat e \<le> length A"
  shows "slice_assign (A @ R) s e p = take (nat s) A @ p @ drop (nat e) A @ R"
proof -
  from assms have i: "slice_index (length A + length R) s = nat s"
    by (simp add: slice_index_def)
  from assms have j: "slice_index (length A + length R) e = nat e"
    by (simp add: slice_index_def)
  from assms have "nat s \<le> nat e" by simp
  with assms show ?thesis
    by (simp add: slice_assign_def i j Let_def max_def)
qed

lemma render_snoc:
  assumes "\<forall>(r', p') \<in> set asc. nat (start r') \<le> nat (start r)"
  shows "render t pos (asc @ [(r, p)])
       = render (take (nat (start r)) t) pos asc @ p @ drop (nat (end_offset r)) t"
  using assms
proof (induction asc arbitrary: pos)
  case Nil
  then show ?case by simp
next
  case (Cons a asc)
  obtain r1 p1 where a: "a = (r1, p1)" by (cases a)
  from Cons.prems have le: "nat (start r1) \<le> nat (start r)" by (simp add: a)
  from Cons.prems have "\<forall>(r', p') \<in> set asc. nat (start r') \<le> nat (start r)" by simp
  then have ih: "render t (nat (end_offset r1)) (asc @ [(r, p)])
       = render (take (nat (start r)) t) (nat (end_offset r1)) asc @ p @ drop (nat (end_offset r)) t"
    by (rule Cons.IH)
  from le have "take (nat (start r1)) (take (nat (start r)) t) = take (nat (start r1)) t"
    by (simp add: min_def)
  then show ?case
    by (simp add: a ih)
qed

lemma splice_render:
  assumes "sorted_wrt (\<lambda>a b. end_offset b \<le> start a) (map fst ds)"
    and "\<forall>(r, p) \<in> set ds. 0 \<le> start r \<and> start r \<le> end_offset r \<and> nat (end_offset r) \<le> b"
    and "b \<le> length t"
  shows "splice (take b t @ R) ds = render (take b t) 0 (rev ds) @ R"
  using assms
proof (induction ds arbitrary: b R)
  case Nil
  then show ?case by simp
next
  case (Cons d ds)
  obtain r p where d: "d = (r, p)" by (cases d)
  define s where "s = nat (start r)"
  define e where "e = nat (end_offset r)"
  from Cons.prems(2) have r: "0 \<le> start r" "start r \<le> end_offset r" "e \<le> b"
    by (simp_all add: d e_def)
  then have se: "s \<le> e" by (simp add: s_def e_def)
  with r Cons.prems(3) have sb: "s \<le> b" "s \<le> length t" by simp_all
  from Cons.prems(1) have chain: "sorted_wrt (\<lambda>a b. end_offset b \<le> start a) (map fst ds)"
    and below: "\<forall>q \<in> set ds. end_offset (fst q) \<le> start r"
    by (simp_all add: d)
  have wf: "\<forall>(r', p') \<in> set ds. 0 \<le> start r' \<and> start r' \<le> end_offset r' \<and> nat (end_offset r') \<le> s"
  proof (clarify)
    fix r' p'
    assume m: "(r', p') \<in> set ds"
    with Cons.prems(2) have "0 \<le> start r'" "start r' \<le> end_offset r'" by auto
    moreover from m below have "end_offset r' \<le> start r" by force
    ultimately show "0 \<le> start r' \<and> start r' \<le> end_offset r' \<and> nat (end_offset r') \<le> s"
      by (simp add: s_def)
  qed
  have starts: "\<forall>(r', p') \<in> set (rev ds). nat (start r') \<le> nat (start r)"
    using wf by (auto simp: s_def)
  have len: "nat (end_offset r) \<le> length (take b t)"
    using r Cons.prems(3) by (simp add: e_def)
  have "splice (take b t @ R) (d # ds)
      = splice (take s (take b t) @ p @ drop e (take b t) @ R) ds"
    using slice_assign_inside [OF r(1) r(2) len, of R p]
    by (simp add: d s_def e_def)
  also have "take s (take b t) = take s t"
    using sb by (simp add: min_def)
  also have "splice (take s t @ p @ drop e (take b t) @ R) ds
      = render (take s t) 0 (rev ds) @ p @ drop e (take b t) @ R"
    using Cons.IH [OF chain wf sb(2)] by simp
  also have "take s t = take s (take b t)"
    using sb by (simp add: min_def)
  also have "render (take s (take b t)) 0 (rev ds) @ p @ drop e (take b t) @ R
      = render (take b t) 0 (rev ds @ [(r, p)]) @ R"
    using render_snoc [OF starts, of "take b t" 0 p] by (simp add: s_def e_def)
  finally show ?case by (simp add: d)
qed

lemma issue_member: "(r, p) \<in> set (issue fk rs g) \<Longrightarrow> r \<in> set rs"
proof -
  assume "(r, p) \<in> set (issue fk rs g)"
  then have "fst (r, p) \<in> fst ` set (issue fk rs g)" by (rule imageI)
  then have "r \<in> set (map fst (issue fk rs g))" by (simp del: issue_results)
  then show ?thesis by (simp only: issue_results)
qed

lemma splice_whole:
  assumes "\<forall>r \<in> set rs. well_formed t r" and "non_overlapping rs"
  shows "splice t (issue fk (sort_results rs) g) = render t 0 (rev (issue fk (sort_results rs) g))"
proof -
  let ?ds = "issue fk (sort_results rs) g"
  from assms(1) have ne: "\<forall>r \<in> set rs. start r < end_offset r"
    by (simp add: well_formed_def)
  have chain: "sorted_wrt (\<lambda>a b. end_offset b \<le> start a) (map fst ?ds)"
    using descending_chain [OF assms(2) ne] by simp
  have wf: "\<forall>(r, p) \<in> set ?ds. 0 \<le> start r \<and> start r \<le> end_offset r
              \<and> nat (end_offset r) \<le> length t"
  proof (clarify)
    fix r p
    assume "(r, p) \<in> set ?ds"
    then have "r \<in> set rs" using issue_member [of r p fk "sort_results rs" g] by simp
    with assms(1) have "well_formed t r" by blast
    then show "0 \<le> start r \<and> start r \<le> end_offset r \<and> nat (end_offset r) \<le> length t"
      by (simp add: well_formed_def nat_le_iff)
  qed
  have "splice (take (length t) t @ []) ?ds = render (take (length t) t) 0 (rev ?ds) @ []"
    by (rule splice_render [OF chain wf]) simp
  then show ?thesis by simp
qed

text \<open>
  C7. \<open>anonymize\<close> runs its loop over the detector's results sorted by \<open>start\<close> in
  descending order. When the results lie within the text, are non-empty and do not
  overlap pairwise, the returned text is the original in which, from left to right,
  each span is replaced by exactly the placeholder generated for it and every character
  outside the spans is copied unchanged (\<^const>\<open>render\<close> over the results in ascending
  order).
\<close>

theorem anonymize_replaces_spans:
  assumes "\<forall>r \<in> set (analyze text). well_formed text r"
    and "non_overlapping (analyze text)"
    and "anonymize fk analyze text sid (vs, g) = Inr (out, vs', g')"
  shows "sorted_wrt (\<lambda>a b. start b \<le> start a) (sort_results (analyze text))
       \<and> set (sort_results (analyze text)) = set (analyze text)
       \<and> out = fst (anonymize_loop fk text sid (sort_results (analyze text)) (text, [], vs, g))
       \<and> map fst (issue fk (sort_results (analyze text)) g) = sort_results (analyze text)
       \<and> sorted_wrt (\<lambda>a b. end_offset a \<le> start b)
            (map fst (rev (issue fk (sort_results (analyze text)) g)))
       \<and> out = render text 0 (rev (issue fk (sort_results (analyze text)) g))"
proof (intro conjI)
  show "sorted_wrt (\<lambda>a b. start b \<le> start a) (sort_results (analyze text))"
    by (rule sort_results_descending)
  show "set (sort_results (analyze text)) = set (analyze text)"
    by simp
  have out: "out = splice text (issue fk (sort_results (analyze text)) g)"
    using anonymize_Inr [OF assms(3)] by blast
  then show "out = fst (anonymize_loop fk text sid (sort_results (analyze text)) (text, [], vs, g))"
    by (simp add: anonymize_loop_eq)
  show "map fst (issue fk (sort_results (analyze text)) g) = sort_results (analyze text)"
    by simp
  from assms(1) have ne: "\<forall>r \<in> set (analyze text). start r < end_offset r"
    by (simp add: well_formed_def)
  show "sorted_wrt (\<lambda>a b. end_offset a \<le> start b)
            (map fst (rev (issue fk (sort_results (analyze text)) g)))"
    using descending_chain [OF assms(2) ne] by (simp add: rev_map [symmetric] sorted_wrt_rev)
  show "out = render text 0 (rev (issue fk (sort_results (analyze text)) g))"
    using out splice_whole [OF assms(1,2)] by simp
qed

theorem anonymize_replaces_spans_witness:
  "list_all (well_formed ''Al met Bo'') (fixed_results [person 0 2, person 7 9] ''Al met Bo'')
   \<and> non_overlapping (fixed_results [person 0 2, person 7 9] ''Al met Bo'')
   \<and> anonymize scripted (fixed_results [person 0 2, person 7 9]) ''Al met Bo'' ''s''
        (Map.empty, [''Raj'', ''Priya''])
       = Inr (''Priya met Raj'',
              [mapping_key ''s'' ''Raj'' \<mapsto> Str ''Bo'', mapping_key ''s'' ''Priya'' \<mapsto> Str ''Al'',
               session_keys_key ''s'' \<mapsto> Lst [''Raj'', ''Priya'']], [])
   \<and> sort_results (fixed_results [person 0 2, person 7 9] ''Al met Bo'') = [person 7 9, person 0 2]
   \<and> ''Priya met Raj''
       = render ''Al met Bo'' 0 (rev (issue scripted
           (sort_results (fixed_results [person 0 2, person 7 9] ''Al met Bo'')) [''Raj'', ''Priya'']))"
proof -
  have a: "\<forall>r \<in> set (fixed_results [person 0 2, person 7 9] ''Al met Bo''). well_formed ''Al met Bo'' r"
    by (simp add: fixed_results_def person_def well_formed_def)
  have b: "non_overlapping (fixed_results [person 0 2, person 7 9] ''Al met Bo'')"
    by (simp add: fixed_results_def person_def disjoint_spans_def)
  have s: "sort_results (fixed_results [person 0 2, person 7 9] ''Al met Bo'') = [person 7 9, person 0 2]"
    by (simp add: sort_results_def fixed_results_def person_def)
  have c: "anonymize scripted (fixed_results [person 0 2, person 7 9]) ''Al met Bo'' ''s''
        (Map.empty, [''Raj'', ''Priya''])
       = Inr (''Priya met Raj'',
              [mapping_key ''s'' ''Raj'' \<mapsto> Str ''Bo'', mapping_key ''s'' ''Priya'' \<mapsto> Str ''Al'',
               session_keys_key ''s'' \<mapsto> Lst [''Raj'', ''Priya'']], [])"
    by (simp add: anonymize_def sort_results_def fixed_results_def person_def scripted_def draw_def
        generate_fake_data_def slice_def slice_assign_def slice_index_def Let_def
        mapping_key_def session_keys_key_def)
  have a': "list_all (well_formed ''Al met Bo'') (fixed_results [person 0 2, person 7 9] ''Al met Bo'')"
    using a by (simp add: list_all_iff)
  show ?thesis
    using a' b c s anonymize_replaces_spans [OF a b c] by blast
qed

subsection \<open>Restoring placeholders\<close>

lemma occurrences_append_ge: "occurrences p B \<le> occurrences p (X @ B)"
  by (induction X) auto

lemma occurrences_zero_replace:
  "occurrences p t = 0 \<Longrightarrow> replace_nonempty p new t = t"
  by (induction t) (auto split: if_splits)

lemma occurrences_mid_ge1: "p \<noteq> [] \<Longrightarrow> 1 \<le> occurrences p (A @ p @ B)"
proof (induction A)
  case Nil
  then show ?case by (cases p) auto
next
  case (Cons a A)
  then show ?case by auto
qed

lemma replace_nonempty_at_head:
  assumes "p \<noteq> []" and "occurrences p (p @ B) = 1"
  shows "replace_nonempty p new (p @ B) = new @ B"
proof -
  from assms(1) obtain c cs where p: "p = c # cs" by (cases p) auto
  from assms(2) have "occurrences p (cs @ B) = 0"
    by (simp add: p)
  moreover have "occurrences p B \<le> occurrences p (cs @ B)"
    by (rule occurrences_append_ge)
  ultimately have "occurrences p B = 0" by simp
  then have "replace_nonempty p new B = B" by (rule occurrences_zero_replace)
  then show ?thesis by (simp add: p)
qed

lemma replace_nonempty_unique:
  assumes "p \<noteq> []" and "occurrences p (A @ p @ B) = 1"
  shows "replace_nonempty p new (A @ p @ B) = A @ new @ B"
  using assms
proof (induction A)
  case Nil
  then show ?case using replace_nonempty_at_head by simp
next
  case (Cons a A)
  have ge: "1 \<le> occurrences p (A @ p @ B)"
    using Cons.prems(1) by (rule occurrences_mid_ge1)
  from Cons.prems(2) have
    "(if prefix p (a # A @ p @ B) then 1 else 0) + occurrences p (A @ p @ B) = 1"
    by simp
  with ge have np: "\<not> prefix p (a # A @ p @ B)" and one: "occurrences p (A @ p @ B) = 1"
    by (auto split: if_splits)
  from Cons.IH [OF Cons.prems(1) one] np show ?case by simp
qed

lemma replace_unique:
  assumes "p \<noteq> []" and "occurrences p (A @ p @ B) = 1"
  shows "replace (A @ p @ B) p new = A @ new @ B"
  using assms by (simp add: replace_def replace_nonempty_unique)

lemma deanonymize_loop_skip:
  "\<forall>q \<in> set old. \<not> sublist q t \<Longrightarrow>
   deanonymize_loop vs sid (old @ ks) t = deanonymize_loop vs sid ks t"
  by (induction old) auto

lemma update_fresh: "k \<notin> fst ` set al \<Longrightarrow> AList.update k v al = al @ [(k, v)]"
  by (induction al) auto

lemma note_all_distinct:
  assumes "distinct (map snd ds)" and "snd ` set ds \<inter> fst ` set nm = {}"
  shows "map fst (note_all text ds nm) = map fst nm @ map snd ds"
  using assms
proof (induction ds arbitrary: nm)
  case Nil
  then show ?case by simp
next
  case (Cons d ds)
  obtain r p where d: "d = (r, p)" by (cases d)
  from Cons.prems have fresh: "p \<notin> fst ` set nm" by (auto simp: d)
  then have u: "AList.update p (slice text (start r) (end_offset r)) nm
      = nm @ [(p, slice text (start r) (end_offset r))]"
    by (rule update_fresh)
  from Cons.prems have "distinct (map snd ds)" and "p \<notin> snd ` set ds"
    by (auto simp: d)
  with Cons.prems(2) have
    "snd ` set ds \<inter> fst ` set (nm @ [(p, slice text (start r) (end_offset r))]) = {}"
    by (auto simp: d)
  with Cons.IH [of "nm @ [(p, slice text (start r) (end_offset r))]"] \<open>distinct (map snd ds)\<close>
  have "map fst (note_all text ds (nm @ [(p, slice text (start r) (end_offset r))]))
      = map fst (nm @ [(p, slice text (start r) (end_offset r))]) @ map snd ds"
    by blast
  then show ?case by (simp add: d u)
qed

lemma drop_take_drop: "s \<le> e \<Longrightarrow> drop s (take e t) @ drop e t = drop s t"
proof -
  assume "s \<le> e"
  have "drop s t = drop s (take e t @ drop e t)" by simp
  also have "\<dots> = drop s (take e t) @ drop (s - length (take e t)) (drop e t)"
    by (rule drop_append)
  also have "drop (s - length (take e t)) (drop e t) = drop e t"
    using \<open>s \<le> e\<close> by (cases "e \<le> length t") (simp_all add: min_def)
  finally show ?thesis by simp
qed

lemma splice_split:
  assumes "sorted_wrt (\<lambda>a b. end_offset b \<le> start a) (map fst ds)"
    and "\<forall>(r, p) \<in> set ds. 0 \<le> start r \<and> start r \<le> end_offset r \<and> nat (end_offset r) \<le> b"
    and "b \<le> length t"
  shows "splice t ds = render (take b t) 0 (rev ds) @ drop b t"
  using splice_render [OF assms, of "drop b t"] by simp

lemma slice_inside:
  assumes "0 \<le> s" and "0 \<le> e" and "e \<le> int (length t)"
  shows "slice t s e = drop (nat s) (take (nat e) t)"
  using assms by (auto simp: slice_def slice_index_def Let_def min_def)

lemma restore_all:
  assumes "sorted_wrt (\<lambda>a b. end_offset b \<le> start a) (map fst ds)"
    and "\<forall>(r, p) \<in> set ds. well_formed t r"
    and "\<forall>(r, p) \<in> set ds. vs (mapping_key sid p) = Some (Str (slice t (start r) (end_offset r)))"
    and "\<forall>(r, p) \<in> set ds. p \<noteq> []"
    and "restorable t ds"
  shows "deanonymize_loop vs sid (map snd ds) (splice t ds) = Inr t"
  using assms
proof (induction ds)
  case Nil
  then show ?case by simp
next
  case (Cons d ds)
  obtain r p where d: "d = (r, p)" by (cases d)
  define s where "s = nat (start r)"
  define e where "e = nat (end_offset r)"
  define orig where "orig = slice t (start r) (end_offset r)"
  from Cons.prems(2) have w: "0 \<le> start r" "start r < end_offset r" "end_offset r \<le> int (length t)"
    by (simp_all add: d well_formed_def)
  then have se: "s < e" and el: "e \<le> length t"
    by (simp_all add: s_def e_def nat_le_iff)
  from Cons.prems(1) have chain: "sorted_wrt (\<lambda>a b. end_offset b \<le> start a) (map fst ds)"
    and below: "\<forall>q \<in> set ds. end_offset (fst q) \<le> start r"
    by (simp_all add: d)
  have bounds: "\<forall>(r', p') \<in> set ds. 0 \<le> start r' \<and> start r' \<le> end_offset r'
                  \<and> nat (end_offset r') \<le> s"
  proof (clarify)
    fix r' p'
    assume m: "(r', p') \<in> set ds"
    with Cons.prems(2) have "well_formed t r'" by auto
    then have "0 \<le> start r'" "start r' \<le> end_offset r'" by (simp_all add: well_formed_def)
    moreover from m below have "end_offset r' \<le> start r" by force
    ultimately show "0 \<le> start r' \<and> start r' \<le> end_offset r' \<and> nat (end_offset r') \<le> s"
      by (simp add: s_def)
  qed
  have sl: "s \<le> length t" using se el by simp
  define A where "A = render (take s t) 0 (rev ds)"
  define B where "B = drop e t"
  have first: "slice_assign t (start r) (end_offset r) p = take s t @ p @ B"
  proof -
    have "nat (end_offset r) \<le> length t" using el by (simp add: e_def)
    with w have "slice_assign (t @ []) (start r) (end_offset r) p
        = take (nat (start r)) t @ p @ drop (nat (end_offset r)) t @ []"
      by (intro slice_assign_inside) simp_all
    then show ?thesis by (simp add: s_def e_def B_def)
  qed
  have T: "splice t (d # ds) = A @ p @ B"
  proof -
    have "splice t (d # ds) = splice (take s t @ (p @ B)) ds"
      by (simp add: d first)
    also have "\<dots> = render (take s t) 0 (rev ds) @ (p @ B)"
      by (rule splice_render [OF chain bounds sl])
    finally show ?thesis by (simp add: A_def)
  qed
  have orig: "orig = drop s (take e t)"
    using w by (simp add: orig_def slice_inside s_def e_def)
  have orig_ne: "orig \<noteq> []"
    using se el by (simp add: orig)
  have restored: "A @ orig @ B = splice t ds"
  proof -
    have "orig @ B = drop s t"
      using se by (simp add: orig B_def drop_take_drop)
    then show ?thesis
      using splice_split [OF chain bounds sl] by (simp add: A_def)
  qed
  from Cons.prems(4) have pne: "p \<noteq> []" by (simp add: d)
  from Cons.prems(5) have one: "occurrences p (A @ p @ B) = 1" and rest: "restorable t ds"
    using T by (simp_all add: d)
  have rep: "replace (A @ p @ B) p orig = splice t ds"
    using replace_unique [OF pne one, of orig] restored by simp
  from Cons.prems(3) have look: "vs (mapping_key sid p) = Some (Str orig)"
    by (simp add: d orig_def)
  have ih: "deanonymize_loop vs sid (map snd ds) (splice t ds) = Inr t"
    using Cons.IH [OF chain _ _ _ rest] Cons.prems(2,3,4) by simp
  have "deanonymize_loop vs sid (map snd (d # ds)) (splice t (d # ds))
      = deanonymize_loop vs sid (p # map snd ds) (A @ p @ B)"
    using T by (simp add: d del: splice.simps)
  also have "\<dots> = deanonymize_loop vs sid (map snd ds) (replace (A @ p @ B) p orig)"
    using look orig_ne by simp
  also have "\<dots> = Inr t"
    by (simp only: rep ih)
  finally show ?case .
qed

text \<open>
  C1 (as stated, refuted). The claim asks only for non-overlapping spans and a stable
  detector. The generator is free to return the same value twice: with two names in the
  text and the placeholder \<open>John Doe\<close> drawn for both, the second mapping record
  overwrites the first (one key for both) and \<open>deanonymize\<close> restores the same name
  at both places.
\<close>

theorem round_trip_collision:
  "list_all (well_formed ''Al met Bo'') (fixed_results [person 0 2, person 7 9] ''Al met Bo'')
   \<and> non_overlapping (fixed_results [person 0 2, person 7 9] ''Al met Bo'')
   \<and> anonymize scripted (fixed_results [person 0 2, person 7 9]) ''Al met Bo'' ''s''
        (Map.empty, [''John Doe'', ''John Doe''])
       = Inr (''John Doe met John Doe'',
              [mapping_key ''s'' ''John Doe'' \<mapsto> Str ''Al'',
               session_keys_key ''s'' \<mapsto> Lst [''John Doe'']], [])
   \<and> deanonymize ''John Doe met John Doe'' ''s''
        [mapping_key ''s'' ''John Doe'' \<mapsto> Str ''Al'',
         session_keys_key ''s'' \<mapsto> Lst [''John Doe'']]
       = Inr ''Al met Al''
   \<and> ''Al met Al'' \<noteq> ''Al met Bo''"
proof (intro conjI)
  show "list_all (well_formed ''Al met Bo'') (fixed_results [person 0 2, person 7 9] ''Al met Bo'')"
    by (simp add: fixed_results_def person_def well_formed_def)
  show "non_overlapping (fixed_results [person 0 2, person 7 9] ''Al met Bo'')"
    by (simp add: fixed_results_def person_def disjoint_spans_def)
  show "anonymize scripted (fixed_results [person 0 2, person 7 9]) ''Al met Bo'' ''s''
        (Map.empty, [''John Doe'', ''John Doe''])
       = Inr (''John Doe met John Doe'',
              [mapping_key ''s'' ''John Doe'' \<mapsto> Str ''Al'',
               session_keys_key ''s'' \<mapsto> Lst [''John Doe'']], [])"
    by (simp add: anonymize_def sort_results_def fixed_results_def person_def scripted_def draw_def
        generate_fake_data_def slice_def slice_assign_def slice_index_def Let_def
        mapping_key_def session_keys_key_def)
  show "deanonymize ''John Doe met John Doe'' ''s''
        [mapping_key ''s'' ''John Doe'' \<mapsto> Str ''Al'',
         session_keys_key ''s'' \<mapsto> Lst [''John Doe'']]
       = Inr ''Al met Al''"
    by (simp add: deanonymize_def session_keys_key_def mapping_key_def sublist_code replace_def)
  show "''Al met Al'' \<noteq> ''Al met Bo''"
    by simp
qed

text \<open>
  C1 (amended). Let the detector's spans lie within the text, be non-empty and not
  overlap pairwise. Then \<open>anonymize\<close> returns, and \<open>deanonymize\<close> of its output
  under the same session gives back the text, provided that the placeholders generated
  are non-empty, different from \<open>keys\<close> and pairwise distinct, that each of them
  occurs exactly once in the text in which it is restored, and that no placeholder
  listed for the session before the call occurs in the anonymized text. (No expiry,
  no eviction.)
\<close>

theorem round_trip:
  assumes wf: "\<forall>r \<in> set (analyze text). well_formed text r"
    and no: "non_overlapping (analyze text)"
    and prior: "vs (session_keys_key sid) = None
                \<or> (\<exists>old. vs (session_keys_key sid) = Some (Lst old)
                     \<and> (\<forall>q \<in> set old. \<not> sublist q (render text 0 (rev (issued fk analyze text g)))))"
    and ph: "\<forall>(r, p) \<in> set (issued fk analyze text g). p \<noteq> [] \<and> p \<noteq> ''keys''"
    and dist: "distinct (map snd (issued fk analyze text g))"
    and uniq: "restorable text (issued fk analyze text g)"
  shows "\<exists>out vs' g'. anonymize fk analyze text sid (vs, g) = Inr (out, vs', g')
           \<and> out = render text 0 (rev (issued fk analyze text g))
           \<and> deanonymize out sid vs' = Inr text"
proof -
  define ds where "ds = issue fk (sort_results (analyze text)) g"
  have ds: "issued fk analyze text g = ds" by (simp add: issued_def ds_def)
  define vs1 where "vs1 = record_all text sid ds vs"
  define out where "out = splice text ds"
  have out_render: "out = render text 0 (rev ds)"
    unfolding out_def ds_def by (rule splice_whole [OF wf no])
  obtain old where old: "vs (session_keys_key sid) = None \<and> old = []
                          \<or> vs (session_keys_key sid) = Some (Lst old)"
    and absent: "\<forall>q \<in> set old. \<not> sublist q out"
    using prior unfolding ds out_render by fastforce
  have nokeys: "\<forall>(r, p) \<in> set ds. mapping_key sid p \<noteq> session_keys_key sid"
    using ph unfolding ds by auto
  then have same: "vs1 (session_keys_key sid) = vs (session_keys_key sid)"
    unfolding vs1_def by (rule record_all_other)
  have new: "map fst (note_all text ds []) = map snd ds"
    using note_all_distinct [of ds "[]" "text"] dist unfolding ds by simp
  define vs' where "vs' = vs1(session_keys_key sid \<mapsto> Lst (old @ map snd ds))"
  have an: "anonymize fk analyze text sid (vs, g)
              = Inr (out, vs', draw_all fk (sort_results (analyze text)) g)"
  proof -
    from old show ?thesis
    proof
      assume "vs (session_keys_key sid) = None \<and> old = []"
      with same have "vs1 (session_keys_key sid) = None" and "old = []" by simp_all
      then show ?thesis
        unfolding anonymize_unfold vs'_def out_def
        by (simp add: vs1_def [symmetric] ds_def [symmetric] new)
    next
      assume "vs (session_keys_key sid) = Some (Lst old)"
      with same have "vs1 (session_keys_key sid) = Some (Lst old)" by simp
      then show ?thesis
        unfolding anonymize_unfold vs'_def out_def
        by (simp add: vs1_def [symmetric] ds_def [symmetric] new)
    qed
  qed
  have look: "\<forall>(r, p) \<in> set ds.
      vs' (mapping_key sid p) = Some (Str (slice text (start r) (end_offset r)))"
  proof (clarify)
    fix r p
    assume m: "(r, p) \<in> set ds"
    with nokeys have "mapping_key sid p \<noteq> session_keys_key sid" by blast
    then have "vs' (mapping_key sid p) = vs1 (mapping_key sid p)"
      by (simp add: vs'_def)
    also have "\<dots> = Some (Str (slice text (start r) (end_offset r)))"
      unfolding vs1_def using m dist unfolding ds by (rule record_all_value)
    finally show "vs' (mapping_key sid p) = Some (Str (slice text (start r) (end_offset r)))" .
  qed
  from wf have ne: "\<forall>r \<in> set (analyze text). start r < end_offset r"
    by (simp add: well_formed_def)
  have chain: "sorted_wrt (\<lambda>a b. end_offset b \<le> start a) (map fst ds)"
    using descending_chain [OF no ne] by (simp add: ds_def)
  have wfd: "\<forall>(r, p) \<in> set ds. well_formed text r"
  proof (clarify)
    fix r p
    assume "(r, p) \<in> set ds"
    then have "r \<in> set (sort_results (analyze text))"
      unfolding ds_def by (rule issue_member)
    with wf show "well_formed text r" by simp
  qed
  have pne: "\<forall>(r, p) \<in> set ds. p \<noteq> []"
    using ph unfolding ds by auto
  have rs: "restorable text ds"
    using uniq unfolding ds .
  have "deanonymize out sid vs' = deanonymize_loop vs' sid (old @ map snd ds) out"
    by (simp add: deanonymize_def vs'_def)
  also have "\<dots> = deanonymize_loop vs' sid (map snd ds) out"
    using absent by (rule deanonymize_loop_skip)
  also have "\<dots> = Inr text"
    unfolding out_def by (rule restore_all [OF chain wfd look pne rs])
  finally have "deanonymize out sid vs' = Inr text" .
  with an out_render show ?thesis
    unfolding ds by blast
qed

theorem round_trip_witness:
  "list_all (well_formed ''My name is Sarah Connor.'')
     (fixed_results [person 11 23] ''My name is Sarah Connor.'')
   \<and> non_overlapping (fixed_results [person 11 23] ''My name is Sarah Connor.'')
   \<and> (Map.empty :: storage) (session_keys_key ''sess-1'') = None
   \<and> issued scripted (fixed_results [person 11 23]) ''My name is Sarah Connor.'' [''Raj Kumar'']
       = [(person 11 23, ''Raj Kumar'')]
   \<and> restorable ''My name is Sarah Connor.''
        (issued scripted (fixed_results [person 11 23]) ''My name is Sarah Connor.'' [''Raj Kumar''])
   \<and> (\<exists>out vs' g'.
         anonymize scripted (fixed_results [person 11 23]) ''My name is Sarah Connor.'' ''sess-1''
           (Map.empty, [''Raj Kumar'']) = Inr (out, vs', g')
         \<and> out = render ''My name is Sarah Connor.'' 0
             (rev (issued scripted (fixed_results [person 11 23]) ''My name is Sarah Connor.''
                [''Raj Kumar'']))
         \<and> deanonymize out ''sess-1'' vs' = Inr ''My name is Sarah Connor.'')"
proof -
  have a: "\<forall>r \<in> set (fixed_results [person 11 23] ''My name is Sarah Connor.'').
      well_formed ''My name is Sarah Connor.'' r"
    by (simp add: fixed_results_def person_def well_formed_def)
  have b: "non_overlapping (fixed_results [person 11 23] ''My name is Sarah Connor.'')"
    by (simp add: fixed_results_def)
  have c: "(Map.empty :: storage) (session_keys_key ''sess-1'') = None
      \<or> (\<exists>old. (Map.empty :: storage) (session_keys_key ''sess-1'') = Some (Lst old)
           \<and> (\<forall>q \<in> set old. \<not> sublist q (render ''My name is Sarah Connor.'' 0
                (rev (issued scripted (fixed_results [person 11 23]) ''My name is Sarah Connor.''
                   [''Raj Kumar''])))))"
    by simp
  have i: "issued scripted (fixed_results [person 11 23]) ''My name is Sarah Connor.'' [''Raj Kumar'']
       = [(person 11 23, ''Raj Kumar'')]"
    by (simp add: issued_def sort_results_def fixed_results_def person_def scripted_def draw_def
        generate_fake_data_def)
  have d: "\<forall>(r, p) \<in> set (issued scripted (fixed_results [person 11 23])
        ''My name is Sarah Connor.'' [''Raj Kumar'']). p \<noteq> [] \<and> p \<noteq> ''keys''"
    by (simp add: i)
  have e: "distinct (map snd (issued scripted (fixed_results [person 11 23])
        ''My name is Sarah Connor.'' [''Raj Kumar'']))"
    by (simp add: i)
  have f: "restorable ''My name is Sarah Connor.''
        (issued scripted (fixed_results [person 11 23]) ''My name is Sarah Connor.'' [''Raj Kumar''])"
    unfolding i by (simp add: person_def slice_assign_def slice_index_def Let_def)
  have a': "list_all (well_formed ''My name is Sarah Connor.'')
     (fixed_results [person 11 23] ''My name is Sarah Connor.'')"
    using a by (simp add: list_all_iff)
  show ?thesis
    using a' b i f round_trip [OF a b c d e f] by simp
qed

end
